theory Spec2Isabelle
  imports Main "HOL-Library.Stream" "HOL-Library.Multiset"
begin

section \<open>Secret Santa Trustee: the derangement generator\<close>

subsection \<open>The random source\<close>

text \<open>
  \<^verbatim>\<open>Trustee.py\<close> draws its randomness from Python's module \<^verbatim>\<open>random\<close>, which is
  not part of the program. The generator's state is taken as a parameter: a state is
  identified with the sequence of raw draws it is going to deliver to the calls of
  \<^verbatim>\<open>randbelow\<close>, one draw a call. \<^verbatim>\<open>randbelow n\<close> delivers an integer in \<^verbatim>\<open>range(n)\<close>, as
  the library promises, and moves the generator on. Nothing is assumed about the
  draws: a theorem below holds for every generator state.
\<close>

type_synonym rng = "nat stream"

definition randbelow :: "nat \<Rightarrow> rng \<Rightarrow> nat \<times> rng" where
  "randbelow n g = (shd g mod n, stl g)"

text \<open>
  The random source that delivers the same raw draw \<open>n\<close> for ever; it serves as a
  concrete input below.
\<close>

definition every_draw :: "nat \<Rightarrow> rng" where
  "every_draw n = sconst n"

text \<open>
  \<^verbatim>\<open>random.shuffle(x)\<close> is the library's in-place exchange loop:
  \<^verbatim>\<open>
  for i in reversed(range(1, len(x))):
      j = randbelow(i + 1)
      x[i], x[j] = x[j], x[i]
  \<close>
  \<open>shuffle_from i x g\<close> runs the iterations \<open>i, i - 1, \<dots>, 1\<close>.
\<close>

fun shuffle_from :: "nat \<Rightarrow> 'a list \<Rightarrow> rng \<Rightarrow> 'a list \<times> rng" where
  "shuffle_from 0 x g = (x, g)"
| "shuffle_from (Suc k) x g =
     (case randbelow (Suc k + 1) g of
        (j, g') \<Rightarrow> shuffle_from k ((x[Suc k := x ! j])[j := x ! Suc k]) g')"

definition shuffle :: "'a list \<Rightarrow> rng \<Rightarrow> 'a list \<times> rng" where
  "shuffle x g = shuffle_from (length x - 1) x g"

subsection \<open>\<^verbatim>\<open>gen_derangement\<close>\<close>

text \<open>
  \<^verbatim>\<open>all(g != r for g, r in zip(givers, receivers))\<close>
\<close>

definition no_self_gift :: "string list \<Rightarrow> string list \<Rightarrow> bool" where
  "no_self_gift givers receivers = list_all (\<lambda>(g, r). g \<noteq> r) (zip givers receivers)"

text \<open>
  \<^verbatim>\<open>dict(pairs)\<close>: the pairs are stored from left to right, a later pair overwriting
  an earlier one with the same key.
\<close>

definition dict :: "(string \<times> string) list \<Rightarrow> (string \<rightharpoonup> string)" where
  "dict ps = map_of (rev ps)"

text \<open>
  The \<^verbatim>\<open>while True\<close> loop of \<^verbatim>\<open>gen_derangement\<close>. The list \<^verbatim>\<open>receivers\<close> is shuffled in
  place, so a rejected attempt leaves its order to the next one. The loop has no bound:
  not returning is the value \<open>None\<close>.
\<close>

partial_function (option) shuffle_and_check ::
  "string list \<Rightarrow> string list \<Rightarrow> rng \<Rightarrow> ((string \<rightharpoonup> string) \<times> rng) option" where
  "shuffle_and_check givers receivers g =
     (case shuffle receivers g of
        (receivers', g') \<Rightarrow>
          if no_self_gift givers receivers'
          then Some (dict (zip givers receivers'), g')
          else shuffle_and_check givers receivers' g')"

definition gen_derangement :: "string list \<Rightarrow> rng \<Rightarrow> ((string \<rightharpoonup> string) \<times> rng) option" where
  "gen_derangement names g = shuffle_and_check names names g"

text \<open>
  Lines 174--175 and 182 of \<^verbatim>\<open>main\<close>: \<^verbatim>\<open>random.seed(args.seed)\<close> when a seed is given,
  then the generation. \<open>seed_rng\<close> is the library's seeding function, \<open>g0\<close> the state
  the generator had when the program started (set by the operating system's entropy).
\<close>

definition seed_if_given :: "(int \<Rightarrow> rng) \<Rightarrow> int option \<Rightarrow> rng \<Rightarrow> rng" where
  "seed_if_given seed_rng sd g0 = (case sd of None \<Rightarrow> g0 | Some s \<Rightarrow> seed_rng s)"

definition seeded_generation ::
  "(int \<Rightarrow> rng) \<Rightarrow> int option \<Rightarrow> rng \<Rightarrow> string list \<Rightarrow> ((string \<rightharpoonup> string) \<times> rng) option" where
  "seeded_generation seed_rng sd g0 names = gen_derangement names (seed_if_given seed_rng sd g0)"



section \<open>Strings\<close>

text \<open>
  Names and queries are modelled as strings of single-byte characters; the string
  methods the program calls are modelled on ASCII.
  \<^verbatim>\<open>str.strip()\<close> removes leading and trailing white space, \<^verbatim>\<open>str.lower()\<close> maps
  \<^verbatim>\<open>A\<close>--\<^verbatim>\<open>Z\<close> to \<^verbatim>\<open>a\<close>--\<^verbatim>\<open>z\<close>, \<^verbatim>\<open>str.isdigit()\<close> holds of a non-empty string of
  decimal digits.
\<close>

definition isspace :: "char \<Rightarrow> bool" where
  "isspace c = (let n = (of_char c :: nat) in (9 \<le> n \<and> n \<le> 13) \<or> (28 \<le> n \<and> n \<le> 32))"

definition strip :: "string \<Rightarrow> string" where
  "strip s = rev (dropWhile isspace (rev (dropWhile isspace s)))"

definition lower_char :: "char \<Rightarrow> char" where
  "lower_char c =
     (case map_of (zip ''ABCDEFGHIJKLMNOPQRSTUVWXYZ'' ''abcdefghijklmnopqrstuvwxyz'') c of
        None \<Rightarrow> c | Some d \<Rightarrow> d)"

definition lower :: "string \<Rightarrow> string" where
  "lower s = map lower_char s"

definition isdigit :: "string \<Rightarrow> bool" where
  "isdigit s = (s \<noteq> [] \<and> list_all (\<lambda>c. c \<in> set ''0123456789'') s)"

text \<open>\<^verbatim>\<open>int(s)\<close> for a string of decimal digits.\<close>

definition int_of_digits :: "string \<Rightarrow> nat" where
  "int_of_digits s = foldl (\<lambda>n c. 10 * n + ((of_char c :: nat) - 48)) 0 s"

text \<open>\<^verbatim>\<open>str(n)\<close>, as the f-strings format a number.\<close>

fun str_nat :: "nat \<Rightarrow> string" where
  "str_nat n =
     (if n < 10 then [''0123456789'' ! n]
      else str_nat (n div 10) @ [''0123456789'' ! (n mod 10)])"

definition str_int :: "int \<Rightarrow> string" where
  "str_int i = (if i < 0 then CHR ''-'' # str_nat (nat (- i)) else str_nat (nat i))"

text \<open>\<^verbatim>\<open>s.split(",")\<close>: the pieces between the commas; an empty string gives one empty piece.\<close>

fun split_comma :: "string \<Rightarrow> string list" where
  "split_comma [] = [[]]"
| "split_comma (c # cs) =
     (if c = CHR '','' then [] # split_comma cs
      else (c # hd (split_comma cs)) # tl (split_comma cs))"

section \<open>Terminal, exceptions and configuration\<close>

text \<open>
  What the program does to the terminal, in order: \<open>Print s\<close> is \<^verbatim>\<open>print(s)\<close>,
  \<open>Input p\<close> is a call of \<^verbatim>\<open>input(p)\<close> (the prompt \<open>p\<close> is shown and a line is asked for),
  \<open>Clear\<close> is \<^verbatim>\<open>clear_screen_and_scrollback()\<close>, \<open>Sleep n\<close> is \<^verbatim>\<open>time.sleep(n)\<close>.
  Standard input is the list of the lines still to come; \<^verbatim>\<open>input\<close> raises \<^verbatim>\<open>EOFError\<close>
  when it is empty.
\<close>

datatype event = Print string | Input string | Clear | Sleep int

datatype exn = SystemExit int | EOFError | KeyError string | OSError

text \<open>
  The value of \<^verbatim>\<open>reveal_timeout_sec\<close>: the default is the Boolean \<^verbatim>\<open>False\<close>, the command
  line gives an integer, and the signature of \<^verbatim>\<open>wait_then_clear\<close> admits \<^verbatim>\<open>None\<close>.
\<close>

datatype pyval = PyNone | PyBool bool | PyInt int

text \<open>\<^verbatim>\<open>isinstance(v, int)\<close> holds of integers and of Booleans, which count as 0 and 1.\<close>

fun isinstance_int :: "pyval \<Rightarrow> bool" where
  "isinstance_int PyNone = False"
| "isinstance_int (PyBool b) = True"
| "isinstance_int (PyInt i) = True"

fun int_value :: "pyval \<Rightarrow> int" where
  "int_value PyNone = 0"
| "int_value (PyBool b) = (if b then 1 else 0)"
| "int_value (PyInt i) = i"

fun format_value :: "pyval \<Rightarrow> string" where
  "format_value PyNone = ''None''"
| "format_value (PyBool b) = (if b then ''True'' else ''False'')"
| "format_value (PyInt i) = str_int i"

definition ONE_SHOT_REVEAL_DEFAULT :: bool where
  "ONE_SHOT_REVEAL_DEFAULT = True"

definition REVEAL_NEEDS_ENTER_DEFAULT :: bool where
  "REVEAL_NEEDS_ENTER_DEFAULT = True"

definition REVEAL_TIMEOUT_SEC_DEFAULT :: pyval where
  "REVEAL_TIMEOUT_SEC_DEFAULT = PyBool False"

text \<open>The parsed command line (\<^verbatim>\<open>build_arg_parser\<close>) and lines 163--172 of \<^verbatim>\<open>main\<close>.\<close>

record args =
  allow_repeat :: bool
  timeout :: "int option"
  no_enter :: bool
  seed :: "int option"

record config =
  one_shot_reveal :: bool
  reveal_needs_enter :: bool
  reveal_timeout_sec :: pyval

definition configure :: "args \<Rightarrow> config" where
  "configure a =
     (if no_enter a then
        \<lparr>one_shot_reveal = \<not> allow_repeat a, reveal_needs_enter = False,
         reveal_timeout_sec = PyInt 0\<rparr>
      else case timeout a of
        Some t \<Rightarrow>
          \<lparr>one_shot_reveal = \<not> allow_repeat a, reveal_needs_enter = False,
           reveal_timeout_sec = PyInt t\<rparr>
      | None \<Rightarrow>
          \<lparr>one_shot_reveal = \<not> allow_repeat a,
           reveal_needs_enter = REVEAL_NEEDS_ENTER_DEFAULT,
           reveal_timeout_sec = REVEAL_TIMEOUT_SEC_DEFAULT\<rparr>)"

subsection \<open>\<^verbatim>\<open>wait_then_clear\<close>\<close>

text \<open>
  The result is the exception raised, if any, with the lines of input left and what the
  terminal saw. Only the \<^verbatim>\<open>input\<close> of the first branch can raise.
\<close>

definition wait_then_clear ::
  "bool \<Rightarrow> pyval \<Rightarrow> string list \<Rightarrow> exn option \<times> string list \<times> event list" where
  "wait_then_clear needs_enter timeout_sec inp =
     (if needs_enter then
        (case inp of
           [] \<Rightarrow> (Some EOFError, [],
                  [Input (CHR 0x0A # ''(Press Enter to clear, and pass to next person)'')])
         | l # rest \<Rightarrow> (None, rest,
                  [Input (CHR 0x0A # ''(Press Enter to clear, and pass to next person)''),
                   Clear]))
      else if isinstance_int timeout_sec \<and> int_value timeout_sec \<ge> 0 then
        (if int_value timeout_sec = 0 then
           (None, inp,
            [Print (CHR 0x0A # ''(Clearing now. Please pass the device to the next person.)''),
             Clear])
         else
           (None, inp,
            [Print (CHR 0x0A # ''(This message will be automatically cleared in ''
                    @ format_value timeout_sec
                    @ '' seconds. Please pass the device to the next person afterward.)''),
             Sleep (int_value timeout_sec),
             Clear]))
      else (None, inp, [Clear]))"


section \<open>The temporary assignment file\<close>

text \<open>
  The file system as the program sees it: the files that exist, with their permission
  bits and content, and the paths whose removal the operating system refuses
  (\<^verbatim>\<open>os.remove\<close> raises \<^verbatim>\<open>OSError\<close> there, e.g. for want of permission on the directory).
  \<open>fresh_path\<close> is the name \<^verbatim>\<open>tempfile.mkstemp\<close> hands out.
\<close>

record tmp_file =
  mode :: nat
  content :: "(string \<rightharpoonup> string) option"

record world =
  stdin :: "string list"
  stdout :: "event list"
  random_state :: rng
  files :: "string \<rightharpoonup> tmp_file"
  unremovable :: "string set"
  fresh_path :: string
  TMP_ASSIGN_PATH :: "string option"

definition os_path_exists :: "world \<Rightarrow> string \<Rightarrow> bool" where
  "os_path_exists w path = (path \<in> dom (files w))"

definition os_remove :: "world \<Rightarrow> string \<Rightarrow> exn + world" where
  "os_remove w path =
     (if path \<in> dom (files w) \<and> path \<notin> unremovable w
      then Inr (w\<lparr>files := (files w)(path := None)\<rparr>)
      else Inl OSError)"

text \<open>
  \<^verbatim>\<open>exit_cleanup\<close>: \<^verbatim>\<open>TMP_ASSIGN_PATH\<close> is tested for truth (neither \<^verbatim>\<open>None\<close> nor the
  empty string), and an exception of \<^verbatim>\<open>os.remove\<close> is caught and dropped.
\<close>

definition exit_cleanup :: "world \<Rightarrow> exn + world" where
  "exit_cleanup w =
     (case TMP_ASSIGN_PATH w of
        None \<Rightarrow> Inr w
      | Some path \<Rightarrow>
          if path \<noteq> [] \<and> os_path_exists w path then
            (case os_remove w path of
               Inr w' \<Rightarrow> Inr w'
             | Inl e \<Rightarrow> Inr w)
          else Inr w)"

text \<open>
  \<^verbatim>\<open>write_tmp_assign\<close>: \<^verbatim>\<open>mkstemp\<close> creates the empty file with mode \<^verbatim>\<open>0o600\<close>, \<^verbatim>\<open>chmod\<close> sets
  the mode again (\<open>0x180\<close> is octal 600), the mapping is written, and the path is
  recorded. The calls are taken to succeed.
\<close>

definition write_tmp_assign :: "(string \<rightharpoonup> string) \<Rightarrow> world \<Rightarrow> world" where
  "write_tmp_assign assignments w =
     (let path = fresh_path w;
          w1 = w\<lparr>files := (files w)(path \<mapsto> \<lparr>mode = 0x180, content = None\<rparr>)\<rparr>;
          w2 = w1\<lparr>files := (files w1)(path \<mapsto> \<lparr>mode = 0x180, content = None\<rparr>)\<rparr>;
          w3 = w2\<lparr>files := (files w2)(path \<mapsto> \<lparr>mode = 0x180, content = Some assignments\<rparr>)\<rparr>
      in w3\<lparr>TMP_ASSIGN_PATH := Some path\<rparr>)"

section \<open>Collecting the names\<close>

text \<open>The de-duplication loop of \<^verbatim>\<open>prompt_names\<close>: the first occurrence of a name stays.\<close>

fun dedup :: "string set \<Rightarrow> string list \<Rightarrow> string list \<Rightarrow> string list" where
  "dedup seen uniq [] = uniq"
| "dedup seen uniq (n # ns) =
     (if n \<notin> seen then dedup (insert n seen) (uniq @ [n]) ns else dedup seen uniq ns)"

definition entered_names :: "string \<Rightarrow> string list" where
  "entered_names line =
     (let raw = strip line;
          names = map strip (filter (\<lambda>n. strip n \<noteq> []) (split_comma raw))
      in dedup {} [] names)"

definition prompt_names :: "string list \<Rightarrow> (exn + string list) \<times> string list \<times> event list" where
  "prompt_names inp =
     (case inp of
        [] \<Rightarrow> (Inl EOFError, [],
               [Print ''Enter all participant names, comma-separated (at least 2):'',
                Input ''> ''])
      | line # rest \<Rightarrow>
          (let uniq = entered_names line in
           if length uniq < 2 then
             (Inl (SystemExit 1), rest,
              [Print ''Enter all participant names, comma-separated (at least 2):'',
               Input ''> '',
               Print ''Need at least 2 distinct names. Exiting.''])
           else
             (Inr uniq, rest,
              [Print ''Enter all participant names, comma-separated (at least 2):'',
               Input ''> ''])))"

section \<open>The reveal session\<close>

text \<open>
  \<^verbatim>\<open>lc_to_names.setdefault(original.lower(), []).append(original)\<close>, for each name in turn.
\<close>

definition setdefault_append :: "(string \<rightharpoonup> string list) \<Rightarrow> string \<Rightarrow> (string \<rightharpoonup> string list)" where
  "setdefault_append m original =
     m(lower original \<mapsto> (case m (lower original) of None \<Rightarrow> [] | Some cs \<Rightarrow> cs) @ [original])"

definition build_lc_to_names :: "string list \<Rightarrow> (string \<rightharpoonup> string list)" where
  "build_lc_to_names names = foldl setdefault_append Map.empty names"

text \<open>
  How one pass through the body of the \<^verbatim>\<open>while True\<close> loop of \<^verbatim>\<open>main\<close> ends: with the next
  pass (\<^verbatim>\<open>continue\<close>, or the end of the body), with \<^verbatim>\<open>return\<close>, or with an exception.
\<close>

datatype control = Continue | Return | Raise exn

text \<open>The outcome of the selection loop (lines 223--248).\<close>

datatype selection = Selected string | Cancelled | EndOfInput

definition selection_prompt :: string where
  "selection_prompt =
     ''Enter the number or exact name (or type '' @ [CHR 0x27] @ ''cancel'' @ [CHR 0x27]
     @ '' to abort): ''"

fun select_candidate ::
  "string list \<Rightarrow> string list \<Rightarrow> selection \<times> string list \<times> event list" where
  "select_candidate candidates [] = (EndOfInput, [], [Input selection_prompt])"
| "select_candidate candidates (line # rest) =
     (let selection = strip line in
      if selection = [] then
        (case select_candidate candidates rest of
           (r, rest', evs) \<Rightarrow>
             (r, rest', [Input selection_prompt, Print ''Please enter a selection.''] @ evs))
      else if lower selection \<in> {''cancel'', ''abort'', ''back''} then
        (Cancelled, rest,
         [Input selection_prompt, Print ''Selection canceled. Returning to main prompt.''])
      else if isdigit selection then
        (let idx = int_of_digits selection in
         if 1 \<le> idx \<and> idx \<le> length candidates then
           (Selected (candidates ! (idx - 1)), rest, [Input selection_prompt])
         else
           (case select_candidate candidates rest of
              (r, rest', evs) \<Rightarrow>
                (r, rest', [Input selection_prompt, Print ''Number out of range. Try again.'']
                   @ evs)))
      else if selection \<in> set candidates then
        (Selected selection, rest, [Input selection_prompt])
      else
        (case select_candidate candidates rest of
           (r, rest', evs) \<Rightarrow>
             (r, rest',
              [Input selection_prompt, Print ''Input did not match any option. Try again.'']
                @ evs)))"

text \<open>The lines printed by \<^verbatim>\<open>for idx, candidate in enumerate(candidates, start=1)\<close>.\<close>

definition candidate_lines :: "string list \<Rightarrow> event list" where
  "candidate_lines candidates =
     map (\<lambda>(idx, candidate). Print (''  '' @ str_nat idx @ ''. '' @ candidate))
       (zip [1 ..< Suc (length candidates)] candidates)"

text \<open>What a reveal shows (lines 259--261).\<close>

definition reveal_header :: "string \<Rightarrow> event" where
  "reveal_header real_name = Print (''*** ONLY FOR '' @ real_name @ '' ***'')"

definition reveal_display :: "string \<Rightarrow> string \<Rightarrow> event list" where
  "reveal_display real_name recipient =
     [Clear,
      reveal_header real_name,
      Print (''You will gift to: '' @ recipient)]"

text \<open>
  Lines 253--265: the one-shot check, the reveal, the entry in \<^verbatim>\<open>viewed\<close> and the wait.
  The result is how the pass ends, the set \<^verbatim>\<open>viewed\<close>, the input left and the events.
\<close>

definition reveal ::
  "config \<Rightarrow> (string \<rightharpoonup> string) \<Rightarrow> string \<Rightarrow> string set \<Rightarrow> string list
   \<Rightarrow> control \<times> string set \<times> string list \<times> event list" where
  "reveal cfg assignments real_name viewed inp =
     (if one_shot_reveal cfg \<and> real_name \<in> viewed then
        (Continue, viewed, inp, [Print ''You have already viewed your assignment.''])
      else case assignments real_name of
        None \<Rightarrow> (Raise (KeyError real_name), viewed, inp, [])
      | Some recipient \<Rightarrow>
          (case wait_then_clear (reveal_needs_enter cfg) (reveal_timeout_sec cfg) inp of
             (None, inp', evs) \<Rightarrow>
               (Continue, insert real_name viewed, inp', reveal_display real_name recipient @ evs)
           | (Some e, inp', evs) \<Rightarrow>
               (Raise e, insert real_name viewed, inp', reveal_display real_name recipient @ evs)))"

text \<open>The handler \<^verbatim>\<open>except EOFError\<close> around the body of the loop.\<close>

definition except_EOFError ::
  "control \<times> string set \<times> string list \<times> event list
   \<Rightarrow> control \<times> string set \<times> string list \<times> event list" where
  "except_EOFError r =
     (case r of
        (Raise EOFError, viewed, inp, evs) \<Rightarrow>
          (Return, viewed, inp, evs @ [Print (CHR 0x0A # ''EOF received. Exiting.'')])
      | _ \<Rightarrow> r)"

definition name_prompt :: string where
  "name_prompt = CHR 0x0A # ''Enter your name: ''"

text \<open>
  Lines 211--248: from the candidates of the key to \<^verbatim>\<open>real_name\<close>. The query itself when it
  is one of the candidates, the only candidate when there is one, and otherwise the list
  of the candidates and the selection loop; \<open>Cancelled\<close> is \<^verbatim>\<open>real_name is None\<close>.
\<close>

definition resolve_name ::
  "string list \<Rightarrow> string \<Rightarrow> string list \<Rightarrow> selection \<times> string list \<times> event list" where
  "resolve_name candidates query rest =
     (if query \<in> set candidates then (Selected query, rest, [])
      else if length candidates = 1 then (Selected (candidates ! 0), rest, [])
      else
        (case select_candidate candidates rest of
           (r, rest', evs) \<Rightarrow>
             (r, rest',
              [Print ''Multiple participants match that entry:'']
                @ candidate_lines candidates @ evs)))"

text \<open>One pass through the body of the loop (lines 197--269).\<close>

definition loop_body ::
  "config \<Rightarrow> (string \<rightharpoonup> string) \<Rightarrow> (string \<rightharpoonup> string list) \<Rightarrow> string set \<Rightarrow> string list
   \<Rightarrow> control \<times> string set \<times> string list \<times> event list" where
  "loop_body cfg assignments lc_to_names viewed inp =
     except_EOFError
     (case inp of
        [] \<Rightarrow> (Raise EOFError, viewed, [], [Input name_prompt])
      | line # rest \<Rightarrow>
          (let query = strip line in
           if query = [] then
             (Continue, viewed, rest, [Input name_prompt, Print ''Please enter a non-empty name.''])
           else if lower query \<in> {''exit'', ''quit''} then
             (Return, viewed, rest,
              [Input name_prompt, Print ''Exiting. Temporary file cleaned up. Happy holidays!''])
           else
             (let key = lower query in
              case lc_to_names key of
                None \<Rightarrow>
                  (Continue, viewed, rest,
                   [Input name_prompt,
                    Print ''Name not found. Please re-check spelling and try again.''])
              | Some candidates \<Rightarrow>
                  (case resolve_name candidates query rest of
                     (Selected real_name, rest1, evs1) \<Rightarrow>
                       (case reveal cfg assignments real_name viewed rest1 of
                          (c, viewed', rest', evs) \<Rightarrow>
                            (c, viewed', rest', [Input name_prompt] @ evs1 @ evs))
                   | (Cancelled, rest1, evs1) \<Rightarrow>
                       (Continue, viewed, rest1, [Input name_prompt] @ evs1)
                   | (EndOfInput, rest1, evs1) \<Rightarrow>
                       (Raise EOFError, viewed, rest1, [Input name_prompt] @ evs1)))))"

text \<open>
  The \<^verbatim>\<open>while True\<close> loop of \<^verbatim>\<open>main\<close>. Every pass that ends in \<^verbatim>\<open>continue\<close> has read at least
  one line, so the loop ends when the input does, at the latest.
\<close>

lemma select_candidate_length:
  "select_candidate candidates inp = (r, rest, evs) \<Longrightarrow> length rest \<le> length inp"
proof (induction inp arbitrary: r rest evs)
  case Nil
  then show ?case by simp
next
  case (Cons line inp)
  obtain r1 rest1 evs1 where rec: "select_candidate candidates inp = (r1, rest1, evs1)"
    by (cases "select_candidate candidates inp")
  have "length rest1 \<le> length inp" using Cons.IH[OF rec] .
  then show ?case using Cons.prems rec
    by (auto simp: Let_def split: if_splits)
qed

lemma resolve_name_length:
  "resolve_name candidates query inp = (r, rest, evs) \<Longrightarrow> length rest \<le> length inp"
  by (auto simp: resolve_name_def split: if_splits prod.splits dest: select_candidate_length)

lemma wait_then_clear_length:
  "wait_then_clear needs_enter timeout_sec inp = (e, rest, evs) \<Longrightarrow> length rest \<le> length inp"
  by (auto simp: wait_then_clear_def split: if_splits list.splits)

lemma reveal_length:
  "reveal cfg assignments real_name viewed inp = (c, viewed', rest, evs) \<Longrightarrow>
   length rest \<le> length inp"
  by (auto simp: reveal_def split: if_splits option.splits prod.splits
           dest: wait_then_clear_length)

lemma except_EOFError_Continue:
  "except_EOFError r = (Continue, v, rest, evs) \<longleftrightarrow> r = (Continue, v, rest, evs)"
  by (cases r) (auto simp: except_EOFError_def split: control.splits exn.splits)

lemma loop_body_consumes:
  assumes "loop_body cfg assignments lc_to_names viewed inp = (Continue, viewed', rest, evs)"
  shows "length rest < length inp"
proof (cases inp)
  case Nil
  then show ?thesis using assms
    by (simp add: loop_body_def except_EOFError_def)
next
  case (Cons line inp')
  show ?thesis using assms unfolding loop_body_def except_EOFError_Continue Cons
    by (auto simp: Let_def split: if_splits option.splits prod.splits selection.splits
             dest!: reveal_length resolve_name_length)
qed

function main_loop ::
  "config \<Rightarrow> (string \<rightharpoonup> string) \<Rightarrow> (string \<rightharpoonup> string list) \<Rightarrow> string set \<Rightarrow> string list
   \<Rightarrow> control \<times> string set \<times> string list \<times> event list" where
  "main_loop cfg assignments lc_to_names viewed inp =
     (case loop_body cfg assignments lc_to_names viewed inp of
        (Continue, viewed', rest, evs) \<Rightarrow>
          (case main_loop cfg assignments lc_to_names viewed' rest of
             (c, viewed'', rest', evs') \<Rightarrow> (c, viewed'', rest', evs @ evs'))
      | r \<Rightarrow> r)"
  by pat_completeness auto
termination
  by (relation "measure (\<lambda>(cfg, assignments, lc_to_names, viewed, inp). length inp)")
     (auto dest: loop_body_consumes[OF sym])


section \<open>\<^verbatim>\<open>main\<close>\<close>

definition banner :: "event list" where
  "banner =
     [Print ''Assignments generated. Private reveal mode started.'',
      Print ''Type your NAME to see whom you gift to (case-insensitive).'',
      Print (''Type '' @ [CHR 0x27] @ ''exit'' @ [CHR 0x27] @ '' or '' @ [CHR 0x27] @ ''quit''
             @ [CHR 0x27] @ '' to end (temporary file will be deleted).'')]"

text \<open>
  \<^verbatim>\<open>atexit.register(exit_cleanup)\<close>: the interpreter calls \<^verbatim>\<open>exit_cleanup\<close> when it exits,
  whatever the exit status; an exception of the handler would be reported and dropped.
\<close>

definition at_exit :: "int \<Rightarrow> world \<Rightarrow> int \<times> world" where
  "at_exit status w = (status, (case exit_cleanup w of Inr w' \<Rightarrow> w' | Inl e \<Rightarrow> w))"

text \<open>The exit status of the interpreter for an exception that nothing catches.\<close>

fun exit_status :: "exn \<Rightarrow> int" where
  "exit_status (SystemExit n) = n"
| "exit_status e = 1"

text \<open>
  \<^verbatim>\<open>main\<close>, from the parsed arguments to the exit of the process: the exit status and the
  world left behind, or \<open>None\<close> when \<^verbatim>\<open>gen_derangement\<close> does not return.
  \<^verbatim>\<open>TMP_ASSIGN_PATH\<close> is \<^verbatim>\<open>None\<close> when the module is loaded.
\<close>

definition main :: "(int \<Rightarrow> rng) \<Rightarrow> args \<Rightarrow> world \<Rightarrow> (int \<times> world) option" where
  "main seed_rng a w0 =
     (let cfg = configure a;
          w1 = w0\<lparr>TMP_ASSIGN_PATH := None,
                  random_state := seed_if_given seed_rng (seed a) (random_state w0)\<rparr>;
          w2 = w1\<lparr>stdout := stdout w1 @ [Print ''Secret Santa Trustee'']\<rparr>
      in case prompt_names (stdin w2) of
           (Inl e, rest, evs) \<Rightarrow>
             Some (at_exit (exit_status e) (w2\<lparr>stdin := rest, stdout := stdout w2 @ evs\<rparr>))
         | (Inr names, rest, evs) \<Rightarrow>
             (case gen_derangement names (random_state w2) of
                None \<Rightarrow> None
              | Some (assignments, g') \<Rightarrow>
                  (let w3 = write_tmp_assign assignments
                              (w2\<lparr>stdin := rest, stdout := stdout w2 @ evs, random_state := g'\<rparr>);
                       lc_to_names = build_lc_to_names names
                   in case main_loop cfg assignments lc_to_names {} (stdin w3) of
                        (c, viewed, rest', evs') \<Rightarrow>
                          Some (at_exit (case c of Raise e \<Rightarrow> exit_status e | _ \<Rightarrow> 0)
                                  (w3\<lparr>stdin := rest',
                                      stdout := stdout w3 @ [Clear] @ banner @ evs'\<rparr>)))))"


section \<open>Example inputs\<close>

text \<open>Concrete configurations, names, assignments and a world, for the instances below.\<close>

definition one_shot_config :: config where
  "one_shot_config =
     configure \<lparr>allow_repeat = False, timeout = None, no_enter = True, seed = None\<rparr>"

definition repeat_config :: config where
  "repeat_config =
     configure \<lparr>allow_repeat = True, timeout = None, no_enter = True, seed = None\<rparr>"

definition example_names :: "string list" where
  "example_names = [''Alice'', ''alice'', ''Bob'']"

definition example_assignments :: "string \<rightharpoonup> string" where
  "example_assignments = [''Alice'' \<mapsto> ''Bob'', ''alice'' \<mapsto> ''Alice'', ''Bob'' \<mapsto> ''alice'']"

definition example_world :: world where
  "example_world =
     \<lparr>stdin = [], stdout = [], random_state = every_draw 0, files = Map.empty,
      unremovable = {}, fresh_path = ''/tmp/secret_santa_a.json'', TMP_ASSIGN_PATH = None\<rparr>"

declare str_nat.simps [simp del]

declare main_loop.simps [simp del]

section \<open>Properties of the derangement generator\<close>

subsection \<open>The shuffle permutes\<close>

lemma shd_every_draw [simp]: "shd (every_draw n) = n"
  by (simp add: every_draw_def)

lemma stl_every_draw [simp]: "stl (every_draw n) = every_draw n"
  by (simp add: every_draw_def)

lemma randbelow_lt: "0 < n \<Longrightarrow> fst (randbelow n g) < n"
  by (simp add: randbelow_def)

lemma mset_shuffle_from:
  "k < length x \<Longrightarrow> mset (fst (shuffle_from k x g)) = mset x"
proof (induction k arbitrary: x g)
  case 0
  then show ?case by simp
next
  case (Suc k)
  obtain j g' where r: "randbelow (Suc k + 1) g = (j, g')" by (cases "randbelow (Suc k + 1) g")
  have "j < Suc k + 1" using randbelow_lt[of "Suc k + 1" g] r by simp
  then have j: "j < length x" using Suc.prems by simp
  have "mset ((x[Suc k := x ! j])[j := x ! Suc k]) = mset x"
    using mset_swap[of j x "Suc k"] j Suc.prems by simp
  then show ?case using Suc r by simp
qed

lemma mset_shuffle: "mset (fst (shuffle x g)) = mset x"
  by (cases x) (simp_all add: shuffle_def mset_shuffle_from)

lemma shuffle_and_check_accepts_aux:
  "shuffle_and_check givers receivers g = Some y \<Longrightarrow>
   \<exists>r. mset r = mset receivers \<and> no_self_gift givers r \<and> fst y = dict (zip givers r)"
proof (induction rule: shuffle_and_check.raw_induct[rotated 1, consumes 1])
  case (1 sc givers receivers g y)
  obtain r1 g1 where s: "shuffle receivers g = (r1, g1)" by (cases "shuffle receivers g")
  have m: "mset r1 = mset receivers" using mset_shuffle[of receivers g] s by simp
  show ?case
  proof (cases "no_self_gift givers r1")
    case True
    then show ?thesis using 1(2) s m by auto
  next
    case False
    then have "sc givers r1 g1 = Some y" using 1(2) s by simp
    from 1(1)[OF this] m show ?thesis by auto
  qed
qed

lemma dict_distinct:
  assumes "distinct (map fst ps)"
  shows "dict ps = map_of ps"
proof
  fix k
  have d: "distinct (map fst (rev ps))" using assms by (simp add: rev_map[symmetric])
  show "dict ps k = map_of ps k"
  proof (cases "map_of ps k")
    case None
    then have "k \<notin> fst ` set ps" by (simp add: map_of_eq_None_iff)
    then have "map_of (rev ps) k = None" by (simp add: map_of_eq_None_iff)
    then show ?thesis using None by (simp add: dict_def)
  next
    case (Some v)
    then have "(k, v) \<in> set (rev ps)" using assms by (simp add: map_of_eq_Some_iff)
    then have "map_of (rev ps) k = Some v" using d by (simp only: map_of_eq_Some_iff)
    then show ?thesis using Some by (simp add: dict_def)
  qed
qed

lemma dict_zip:
  assumes "distinct givers" "length r = length givers"
  shows "dict (zip givers r) = map_of (zip givers r)"
  using assms by (intro dict_distinct) simp

lemma no_self_gift_nth:
  "length r = length givers \<Longrightarrow>
   no_self_gift givers r \<longleftrightarrow> (\<forall>i < length givers. givers ! i \<noteq> r ! i)"
  by (auto simp: no_self_gift_def list_all_length)

lemma derangement_props:
  assumes d: "distinct names" and m: "mset r = mset names" and a: "no_self_gift names r"
  shows "dom (map_of (zip names r)) = set names"
    and "ran (map_of (zip names r)) = set names"
    and "inj_on (map_of (zip names r)) (set names)"
    and "\<forall>p \<in> set names. map_of (zip names r) p \<noteq> Some p"
proof -
  have len: "length r = length names" using m by (metis size_mset)
  have dr: "distinct r" using m d by (metis mset_eq_imp_distinct_iff)
  have sr: "set r = set names" using m by (metis set_mset_mset)
  show "dom (map_of (zip names r)) = set names" using len by simp
  show "ran (map_of (zip names r)) = set names" using len d sr by (simp add: ran_map_of_zip)
  have nth: "\<And>i. i < length names \<Longrightarrow> map_of (zip names r) (names ! i) = Some (r ! i)"
    using d len by (simp add: map_of_zip_nth)
  show "inj_on (map_of (zip names r)) (set names)"
  proof (rule inj_onI)
    fix x y assume "x \<in> set names" "y \<in> set names"
      and e: "map_of (zip names r) x = map_of (zip names r) y"
    then obtain i j where i: "i < length names" "x = names ! i" and j: "j < length names" "y = names ! j"
      by (metis in_set_conv_nth)
    then have "r ! i = r ! j" using e nth by simp
    then have "i = j" using dr i j len by (simp add: nth_eq_iff_index_eq)
    then show "x = y" using i j by simp
  qed
  show "\<forall>p \<in> set names. map_of (zip names r) p \<noteq> Some p"
  proof
    fix p assume "p \<in> set names"
    then obtain i where i: "i < length names" "p = names ! i" by (metis in_set_conv_nth)
    then have "names ! i \<noteq> r ! i" using a len by (simp add: no_self_gift_nth)
    then show "map_of (zip names r) p \<noteq> Some p" using nth i by auto
  qed
qed

lemma gen_derangement_result:
  assumes "distinct names" "gen_derangement names g = Some (m, g')"
  shows "\<exists>r. mset r = mset names \<and> no_self_gift names r \<and> m = map_of (zip names r)"
proof -
  obtain r where r: "mset r = mset names" "no_self_gift names r" "m = dict (zip names r)"
    using shuffle_and_check_accepts_aux[of names names g "(m, g')"] assms(2)
    by (auto simp: gen_derangement_def)
  have "length r = length names" using r(1) by (metis size_mset)
  then show ?thesis using r dict_zip[OF assms(1)] by auto
qed

lemma two_derangement:
  assumes "A \<noteq> B" "mset r = mset [A, B]" "no_self_gift [A, B] r"
  shows "r = [B, A]"
proof -
  have "length r = 2" using assms(2) by (metis size_mset length_Cons list.size(3) numeral_2_eq_2)
  then obtain x y where r: "r = [x, y]"
    by (metis (no_types) length_0_conv length_Suc_conv numeral_2_eq_2)
  have "set r = {A, B}" using assms(2) by (metis set_mset_mset list.simps(15) empty_set)
  then show ?thesis using assms(1,3) r by (auto simp: no_self_gift_def doubleton_eq_iff)
qed


subsection \<open>When the loop returns\<close>





lemma shuffle_two_every_draw_0: "shuffle [a, b] (every_draw 0) = ([b, a], every_draw 0)"
  by (simp add: shuffle_def randbelow_def)

lemma gen_two_every_draw_0:
  "gen_derangement [''A'', ''B''] (every_draw 0) = Some ([''A'' \<mapsto> ''B'', ''B'' \<mapsto> ''A''], every_draw 0)"
  by (subst gen_derangement_def, subst shuffle_and_check.simps)
     (simp add: shuffle_two_every_draw_0 no_self_gift_def dict_def fun_eq_iff)

lemma shuffle_three_every_draw_0: "shuffle [a, b, c] (every_draw 0) = ([b, c, a], every_draw 0)"
  by (simp add: shuffle_def randbelow_def numeral_2_eq_2)

lemma gen_three_every_draw_0:
  "gen_derangement [''A'', ''B'', ''C''] (every_draw 0) =
     Some ([''A'' \<mapsto> ''B'', ''B'' \<mapsto> ''C'', ''C'' \<mapsto> ''A''], every_draw 0)"
  by (subst gen_derangement_def, subst shuffle_and_check.simps)
     (simp add: shuffle_three_every_draw_0 no_self_gift_def dict_def fun_eq_iff)

lemma randbelow_every_draw_0 [simp]: "randbelow n (every_draw 0) = (0, every_draw 0)"
  by (simp add: randbelow_def)






lemma gen_two_every_draw_0_returns: "gen_derangement [''A'', ''B''] (every_draw 0) \<noteq> None"
  by (simp add: gen_two_every_draw_0)

lemma gen_three_every_draw_0_returns:
  "gen_derangement [''A'', ''B'', ''C''] (every_draw 0) \<noteq> None"
  by (simp add: gen_three_every_draw_0)

subsection \<open>The claims about the generator\<close>

text \<open>
  Claim C1. For a list of two or more distinct names, the mapping that \<^verbatim>\<open>gen_derangement\<close>
  returns is a permutation of the names without a fixed point: its keys are the names,
  its values are the names, no two names share a recipient, and nobody is assigned to
  themselves.
\<close>

theorem gen_derangement_is_derangement:
  assumes "distinct names" and "2 \<le> length names"
    and "gen_derangement names g = Some (m, g')"
  shows "dom m = set names \<and> ran m = set names \<and> inj_on m (set names) \<and>
         (\<forall>p \<in> set names. m p \<noteq> Some p) \<and>
         bij_betw (\<lambda>p. the (m p)) (set names) (set names)"
proof -
  obtain r where r: "mset r = mset names" "no_self_gift names r" "m = map_of (zip names r)"
    using gen_derangement_result[OF assms(1,3)] by blast
  note p = derangement_props[OF assms(1) r(1,2), folded r(3)]
  have inj: "inj_on (\<lambda>p. the (m p)) (set names)"
  proof (rule inj_onI)
    fix x y assume xy: "x \<in> set names" "y \<in> set names" and e: "the (m x) = the (m y)"
    then have "m x \<noteq> None" "m y \<noteq> None" using p(1) by auto
    then have "m x = m y" using e by (metis option.expand)
    then show "x = y" using p(3) xy by (simp add: inj_on_def)
  qed
  have img: "(\<lambda>p. the (m p)) ` set names = set names"
  proof -
    have "(\<lambda>p. the (m p)) ` dom m = ran m" by (auto simp: ran_def dom_def image_iff) force
    then show ?thesis using p(1,2) by simp
  qed
  show ?thesis using p inj img by (simp add: bij_betw_def)
qed

theorem gen_derangement_is_derangement_witness:
  "distinct [''A'', ''B'', ''C''] \<and> 2 \<le> length [''A'', ''B'', ''C''] \<and>
   gen_derangement [''A'', ''B'', ''C''] (every_draw 0) \<noteq> None \<and>
   dom (fst (the (gen_derangement [''A'', ''B'', ''C''] (every_draw 0)))) = {''A'', ''B'', ''C''}"
proof -
  let ?names = "[''A'', ''B'', ''C'']"
  let ?res = "the (gen_derangement ?names (every_draw 0))"
  have h1: "distinct ?names" by simp
  have h2: "2 \<le> length ?names" by simp
  have h3: "gen_derangement ?names (every_draw 0) \<noteq> None"
    by (rule gen_three_every_draw_0_returns)
  then have h4: "gen_derangement ?names (every_draw 0) = Some (fst ?res, snd ?res)" by auto
  have "dom (fst ?res) = set ?names"
    using gen_derangement_is_derangement[OF h1 h2 h4] by (rule conjunct1)
  then show ?thesis using h1 h2 h3 by simp
qed

text \<open>
  Claim C2. With a seed given, the generation does not depend on the state the random
  generator had before: \<^verbatim>\<open>random.seed(seed)\<close> followed by \<^verbatim>\<open>gen_derangement\<close> on the same
  names gives the same result from any two earlier states, and so does the whole run of
  \<^verbatim>\<open>main\<close>.
\<close>

theorem seeded_generation_deterministic:
  "seeded_generation seed_rng (Some s) g1 names = seeded_generation seed_rng (Some s) g2 names \<and>
   main seed_rng (a\<lparr>seed := Some s\<rparr>) (w\<lparr>random_state := g1\<rparr>) =
   main seed_rng (a\<lparr>seed := Some s\<rparr>) (w\<lparr>random_state := g2\<rparr>)"
  by (simp add: seeded_generation_def seed_if_given_def main_def)




text \<open>
  Claim C9. On two distinct names \<open>A\<close> and \<open>B\<close>, whatever the draws, a run of
  \<^verbatim>\<open>gen_derangement\<close> that returns gives the swap: \<open>A\<close> to \<open>B\<close> and \<open>B\<close> to \<open>A\<close>.
\<close>

theorem gen_derangement_two:
  assumes "A \<noteq> B" and "gen_derangement [A, B] g = Some (m, g')"
  shows "m = [A \<mapsto> B, B \<mapsto> A]"
proof -
  obtain r where r: "mset r = mset [A, B]" "no_self_gift [A, B] r" "m = map_of (zip [A, B] r)"
    using gen_derangement_result[of "[A, B]" g m g'] assms by auto
  have "r = [B, A]" using two_derangement[OF assms(1) r(1,2)] .
  then show ?thesis using r(3) assms(1) by (auto simp: fun_eq_iff)
qed

theorem gen_derangement_two_witness:
  "''A'' \<noteq> ''B'' \<and> gen_derangement [''A'', ''B''] (every_draw 0) \<noteq> None \<and>
   fst (the (gen_derangement [''A'', ''B''] (every_draw 0))) = [''A'' \<mapsto> ''B'', ''B'' \<mapsto> ''A'']"
proof -
  let ?res = "the (gen_derangement [''A'', ''B''] (every_draw 0))"
  have h1: "''A'' \<noteq> ''B''" by simp
  have h2: "gen_derangement [''A'', ''B''] (every_draw 0) \<noteq> None"
    by (rule gen_two_every_draw_0_returns)
  then have h3: "gen_derangement [''A'', ''B''] (every_draw 0) = Some (fst ?res, snd ?res)" by auto
  have "fst ?res = [''A'' \<mapsto> ''B'', ''B'' \<mapsto> ''A'']"
    by (rule gen_derangement_two[OF h1 h3])
  then show ?thesis using h1 h2 by blast
qed

section \<open>Properties of the post-reveal wait\<close>






section \<open>Properties of the temporary file\<close>

lemma exit_cleanup_no_error: "\<exists>w'. exit_cleanup w = Inr w'"
  by (auto simp: exit_cleanup_def split: option.splits sum.splits)

lemma exit_cleanup_cases:
  "exit_cleanup w = Inr w \<or>
   (\<exists>path. TMP_ASSIGN_PATH w = Some path \<and> path \<noteq> [] \<and> path \<in> dom (files w) \<and>
      path \<notin> unremovable w \<and> exit_cleanup w = Inr (w\<lparr>files := (files w)(path := None)\<rparr>))"
  by (auto simp: exit_cleanup_def os_path_exists_def os_remove_def split: option.splits)

lemma exit_cleanup_twice:
  assumes "exit_cleanup w = Inr w'"
  shows "exit_cleanup w' = Inr w'"
  using assms exit_cleanup_cases[of w]
  by (auto simp: exit_cleanup_def os_path_exists_def)

lemma exit_cleanup_removes:
  assumes "exit_cleanup w = Inr w'" "TMP_ASSIGN_PATH w = Some path" "path \<noteq> []"
    "path \<notin> unremovable w"
  shows "\<not> os_path_exists w' path"
  using assms
  by (auto simp: exit_cleanup_def os_path_exists_def os_remove_def split: if_splits)


text \<open>
  Claim C5, as the code has it. \<^verbatim>\<open>exit_cleanup\<close> never raises, a second call in succession
  changes nothing more, and it does nothing when no file was recorded. The file is gone
  afterwards whenever the operating system lets it be removed; a removal that fails is
  dropped (the deletion is best effort) and leaves the file in place.
\<close>

theorem exit_cleanup_idempotent:
  "(\<exists>w'. exit_cleanup w = Inr w' \<and> exit_cleanup w' = Inr w' \<and>
         TMP_ASSIGN_PATH w' = TMP_ASSIGN_PATH w \<and>
         (\<forall>path. TMP_ASSIGN_PATH w = Some path \<and> path \<noteq> [] \<and> path \<notin> unremovable w
            \<longrightarrow> \<not> os_path_exists w' path)) \<and>
   (TMP_ASSIGN_PATH w = None \<longrightarrow> exit_cleanup w = Inr w)"
proof -
  obtain w' where w': "exit_cleanup w = Inr w'" using exit_cleanup_no_error by blast
  have "TMP_ASSIGN_PATH w' = TMP_ASSIGN_PATH w" using w' exit_cleanup_cases[of w] by auto
  moreover have "TMP_ASSIGN_PATH w = None \<longrightarrow> exit_cleanup w = Inr w"
    by (simp add: exit_cleanup_def)
  ultimately show ?thesis
    using w' exit_cleanup_twice[OF w'] exit_cleanup_removes[OF w'] by blast
qed

theorem exit_cleanup_idempotent_witness:
  "TMP_ASSIGN_PATH (write_tmp_assign Map.empty example_world) = Some ''/tmp/secret_santa_a.json'' \<and>
   ''/tmp/secret_santa_a.json'' \<notin> unremovable (write_tmp_assign Map.empty example_world) \<and>
   os_path_exists (write_tmp_assign Map.empty example_world) ''/tmp/secret_santa_a.json'' \<and>
   (\<exists>w'. exit_cleanup (write_tmp_assign Map.empty example_world) = Inr w' \<and>
         exit_cleanup w' = Inr w' \<and> \<not> os_path_exists w' ''/tmp/secret_santa_a.json'') \<and>
   TMP_ASSIGN_PATH example_world = None \<and> exit_cleanup example_world = Inr example_world"
proof -
  let ?w = "write_tmp_assign Map.empty example_world"
  let ?p = "''/tmp/secret_santa_a.json''"
  have h1: "TMP_ASSIGN_PATH ?w = Some ?p"
    by (simp add: write_tmp_assign_def example_world_def Let_def)
  have h2: "?p \<notin> unremovable ?w"
    by (simp add: write_tmp_assign_def example_world_def Let_def)
  have h3: "os_path_exists ?w ?p"
    by (simp add: write_tmp_assign_def example_world_def Let_def os_path_exists_def)
  have h4: "TMP_ASSIGN_PATH example_world = None" by (simp add: example_world_def)
  have h0: "?p \<noteq> []" by simp
  have "\<exists>w'. exit_cleanup ?w = Inr w' \<and> exit_cleanup w' = Inr w' \<and> \<not> os_path_exists w' ?p"
    using exit_cleanup_idempotent[of ?w] h1 h2 h0 by blast
  moreover have "exit_cleanup example_world = Inr example_world"
    using exit_cleanup_idempotent[of example_world] h4 by blast
  ultimately show ?thesis using h1 h2 h3 h4 by blast
qed

theorem exit_cleanup_leaves_file_counterexample:
  "os_path_exists
     (write_tmp_assign Map.empty
        (example_world\<lparr>unremovable := {''/tmp/secret_santa_a.json''}\<rparr>))
     ''/tmp/secret_santa_a.json'' \<and>
   exit_cleanup
     (write_tmp_assign Map.empty
        (example_world\<lparr>unremovable := {''/tmp/secret_santa_a.json''}\<rparr>)) =
   Inr (write_tmp_assign Map.empty
        (example_world\<lparr>unremovable := {''/tmp/secret_santa_a.json''}\<rparr>))"
  by (simp add: exit_cleanup_def os_path_exists_def os_remove_def write_tmp_assign_def
        example_world_def Let_def)

section \<open>Properties of the start of \<^verbatim>\<open>main\<close>\<close>





section \<open>Properties of the reveal session\<close>

subsection \<open>Where a reveal can come from\<close>


lemma header_notin_wait_then_clear:
  "wait_then_clear needs_enter timeout_sec inp = (e, rest, evs) \<Longrightarrow> reveal_header P \<notin> set evs"
  by (auto simp: wait_then_clear_def reveal_header_def split: if_splits list.splits)

lemma header_notin_select_candidate:
  "select_candidate candidates inp = (r, rest, evs) \<Longrightarrow> reveal_header P \<notin> set evs"
proof (induction inp arbitrary: r rest evs)
  case Nil
  then show ?case by (auto simp: reveal_header_def)
next
  case (Cons line inp)
  obtain r1 rest1 evs1 where rec: "select_candidate candidates inp = (r1, rest1, evs1)"
    by (cases "select_candidate candidates inp")
  have "reveal_header P \<notin> set evs1" using Cons.IH[OF rec] .
  then show ?case using Cons.prems rec
    by (auto simp: Let_def reveal_header_def split: if_splits)
qed

lemma header_notin_candidate_lines: "reveal_header P \<notin> set (candidate_lines candidates)"
  by (auto simp: candidate_lines_def reveal_header_def)

lemma reveal_header_inj: "reveal_header n = reveal_header P \<longleftrightarrow> n = P"
  by (simp add: reveal_header_def)

lemma reveal_header_neq:
  "reveal_header P \<noteq> Clear" "reveal_header P \<noteq> Input s" "reveal_header P \<noteq> Sleep d"
  "reveal_header P = Print s \<longleftrightarrow> s = ''*** ONLY FOR '' @ P @ '' ***''"
  by (auto simp: reveal_header_def)

lemma reveal_shows_header:
  assumes "reveal cfg assignments n viewed inp = (c, viewed', rest, evs)"
    and "reveal_header P \<in> set evs"
  shows "n = P \<and> \<not> (one_shot_reveal cfg \<and> P \<in> viewed)"
  using assms
  by (auto simp: reveal_def reveal_display_def reveal_header_inj reveal_header_neq
           split: if_splits option.splits prod.splits
           dest: header_notin_wait_then_clear)

lemma reveal_viewed:
  assumes "reveal cfg assignments n viewed inp = (c, viewed', rest, evs)"
  shows "viewed' = viewed \<or>
         (viewed' = insert n viewed \<and>
          (\<exists>r. assignments n = Some r \<and> set (reveal_display n r) \<subseteq> set evs))"
  using assms
  by (auto simp: reveal_def split: if_splits option.splits prod.splits)

lemma select_candidate_Selected:
  "select_candidate candidates inp = (Selected n, rest, evs) \<Longrightarrow> n \<in> set candidates"
proof (induction inp arbitrary: rest evs)
  case Nil
  then show ?case by simp
next
  case (Cons line inp)
  obtain r1 rest1 evs1 where rec: "select_candidate candidates inp = (r1, rest1, evs1)"
    by (cases "select_candidate candidates inp")
  show ?case using Cons.prems rec Cons.IH[of rest1 evs1]
    by (auto simp: Let_def split: if_splits)
qed

lemma build_lc_to_names_snoc:
  "build_lc_to_names (names @ [n]) = setdefault_append (build_lc_to_names names) n"
  by (simp add: build_lc_to_names_def)

lemma build_lc_to_names_eq:
  "build_lc_to_names names k =
     (if k \<in> lower ` set names then Some (filter (\<lambda>n. lower n = k) names) else None)"
proof (induction names rule: rev_induct)
  case Nil
  then show ?case by (simp add: build_lc_to_names_def)
next
  case (snoc n names)
  have e: "filter (\<lambda>m. lower m = lower n) names = []" if "lower n \<notin> lower ` set names"
  proof -
    have "\<forall>m \<in> set names. lower m \<noteq> lower n" using that by (metis imageI)
    then show ?thesis by (simp add: filter_empty_conv)
  qed
  show ?case using snoc
    by (auto simp: build_lc_to_names_snoc setdefault_append_def e)
qed

lemma build_lc_to_names_Some:
  "build_lc_to_names names k = Some cs \<Longrightarrow> c \<in> set cs \<Longrightarrow> lower c = k \<and> c \<in> set names"
  by (auto simp: build_lc_to_names_eq split: if_splits)

lemma except_EOFError_cases:
  assumes "except_EOFError (c0, v0, r0, e0) = (c, v, r, e)"
  shows "v = v0 \<and> r = r0 \<and>
         (e = e0 \<and> c = c0 \<or>
          e = e0 @ [Print (CHR 0x0A # ''EOF received. Exiting.'')] \<and> c0 = Raise EOFError \<and> c = Return)"
  using assms by (auto simp: except_EOFError_def split: control.splits exn.splits)


lemma resolve_name_Selected:
  "resolve_name candidates query inp = (Selected n, rest, evs) \<Longrightarrow> n \<in> set candidates"
  by (auto simp: resolve_name_def length_Suc_conv split: if_splits prod.splits
           dest: select_candidate_Selected)

lemma header_notin_resolve_name:
  "resolve_name candidates query inp = (r, rest, evs) \<Longrightarrow> reveal_header P \<notin> set evs"
  by (auto simp: resolve_name_def reveal_header_neq header_notin_candidate_lines
           split: if_splits prod.splits dest: header_notin_select_candidate)

text \<open>The body of the loop without the handler, by cases.\<close>

lemma loop_body_cases:
  assumes "loop_body cfg assignments lc_to_names viewed inp = (c, viewed', rest, evs)"
  shows "(reveal_header P \<notin> set evs \<and> viewed' = viewed) \<or>
         (\<exists>line rest0 candidates real_name rest1 evs1 c0 evs2.
            inp = line # rest0 \<and> strip line \<noteq> [] \<and>
            lower (strip line) \<notin> {''exit'', ''quit''} \<and>
            lc_to_names (lower (strip line)) = Some candidates \<and>
            resolve_name candidates (strip line) rest0 = (Selected real_name, rest1, evs1) \<and>
            reveal cfg assignments real_name viewed rest1 = (c0, viewed', rest, evs2) \<and>
            set evs2 \<subseteq> set evs \<and>
            (reveal_header P \<in> set evs \<longrightarrow> reveal_header P \<in> set evs2))"
proof (cases inp)
  case Nil
  then show ?thesis using assms
    by (auto simp: loop_body_def except_EOFError_def reveal_header_neq)
next
  case (Cons line rest0)
  consider (empty) "strip line = []"
    | (exit) "strip line \<noteq> []" "lower (strip line) \<in> {''exit'', ''quit''}"
    | (notfound) "strip line \<noteq> []" "lower (strip line) \<notin> {''exit'', ''quit''}"
        "lc_to_names (lower (strip line)) = None"
    | (found) candidates where "strip line \<noteq> []"
        "lower (strip line) \<notin> {''exit'', ''quit''}"
        "lc_to_names (lower (strip line)) = Some candidates"
    by (cases "lc_to_names (lower (strip line))") auto
  then show ?thesis
  proof cases
    case empty
    then show ?thesis using assms Cons
      by (simp add: loop_body_def except_EOFError_def Let_def) (auto simp: reveal_header_neq)
  next
    case exit
    then show ?thesis using assms Cons
      by (simp add: loop_body_def except_EOFError_def Let_def) (auto simp: reveal_header_neq)
  next
    case notfound
    then show ?thesis using assms Cons
      by (simp add: loop_body_def except_EOFError_def Let_def) (auto simp: reveal_header_neq)
  next
    case found
    note False = found(1,2) and cs = found(3)
    obtain r rest1 evs1 where res: "resolve_name candidates (strip line) rest0 = (r, rest1, evs1)"
      by (cases "resolve_name candidates (strip line) rest0")
    note h1 = header_notin_resolve_name[OF res, of P]
    show ?thesis
    proof (cases r)
      case (Selected real_name)
      obtain c0 v0 r0 evs2 where rev: "reveal cfg assignments real_name viewed rest1 = (c0, v0, r0, evs2)"
        by (cases "reveal cfg assignments real_name viewed rest1")
      have "except_EOFError (c0, v0, r0, [Input name_prompt] @ evs1 @ evs2) = (c, viewed', rest, evs)"
        using assms Cons False cs res Selected rev by (simp add: loop_body_def Let_def)
      from except_EOFError_cases[OF this]
      have "viewed' = v0" "rest = r0" "set evs2 \<subseteq> set evs"
        "reveal_header P \<in> set evs \<longrightarrow> reveal_header P \<in> set evs2"
        using h1 by (auto simp: reveal_header_neq)
      then show ?thesis using Cons False cs res Selected rev by auto
    next
      case Cancelled
      then show ?thesis using assms Cons False cs res h1
        by (simp add: loop_body_def except_EOFError_def Let_def) (auto simp: reveal_header_neq)
    next
      case EndOfInput
      then show ?thesis using assms Cons False cs res h1
        by (simp add: loop_body_def except_EOFError_def Let_def) (auto simp: reveal_header_neq)
    qed
  qed
qed

lemma loop_body_shows_header:
  assumes "loop_body cfg assignments lc_to_names viewed inp = (c, viewed', rest, evs)"
    and "reveal_header P \<in> set evs"
  shows "\<exists>line rest0 candidates.
           inp = line # rest0 \<and> lower (strip line) \<notin> {''exit'', ''quit''} \<and>
           lc_to_names (lower (strip line)) = Some candidates \<and> P \<in> set candidates \<and>
           \<not> (one_shot_reveal cfg \<and> P \<in> viewed)"
  using loop_body_cases[OF assms(1), of P] assms(2)
  by (auto dest!: reveal_shows_header resolve_name_Selected)

lemma loop_body_viewed:
  assumes "loop_body cfg assignments lc_to_names viewed inp = (c, viewed', rest, evs)"
  shows "viewed' = viewed \<or>
         (\<exists>n r. viewed' = insert n viewed \<and> assignments n = Some r \<and>
                set (reveal_display n r) \<subseteq> set evs)"
  using loop_body_cases[OF assms(1), of undefined]
  by (auto dest!: reveal_viewed)

subsection \<open>The whole loop\<close>


lemma main_loop_stop:
  "loop_body cfg assignments lc_to_names viewed inp = (c, viewed', rest, evs) \<Longrightarrow>
   c \<noteq> Continue \<Longrightarrow>
   main_loop cfg assignments lc_to_names viewed inp = (c, viewed', rest, evs)"
  by (subst main_loop.simps) (simp split: control.splits)

lemma main_loop_step:
  "loop_body cfg assignments lc_to_names viewed inp = (Continue, viewed1, rest1, evs1) \<Longrightarrow>
   main_loop cfg assignments lc_to_names viewed1 rest1 = (c, viewed', rest, evs2) \<Longrightarrow>
   main_loop cfg assignments lc_to_names viewed inp = (c, viewed', rest, evs1 @ evs2)"
  by (subst main_loop.simps) simp

lemma main_loop_induct [consumes 1, case_names stop step]:
  assumes run: "main_loop cfg assignments lc_to_names viewed inp = (c, viewed', rest, evs)"
    and stop: "\<And>viewed inp c viewed' rest evs.
       loop_body cfg assignments lc_to_names viewed inp = (c, viewed', rest, evs) \<Longrightarrow>
       c \<noteq> Continue \<Longrightarrow> Q viewed inp c viewed' rest evs"
    and step: "\<And>viewed inp viewed1 rest1 evs1 c viewed' rest evs2.
       loop_body cfg assignments lc_to_names viewed inp = (Continue, viewed1, rest1, evs1) \<Longrightarrow>
       main_loop cfg assignments lc_to_names viewed1 rest1 = (c, viewed', rest, evs2) \<Longrightarrow>
       Q viewed1 rest1 c viewed' rest evs2 \<Longrightarrow>
       Q viewed inp c viewed' rest (evs1 @ evs2)"
  shows "Q viewed inp c viewed' rest evs"
  using run
proof (induction inp arbitrary: viewed c viewed' rest evs rule: length_induct)
  case (1 inp)
  obtain c1 viewed1 rest1 evs1
    where body: "loop_body cfg assignments lc_to_names viewed inp = (c1, viewed1, rest1, evs1)"
    by (cases "loop_body cfg assignments lc_to_names viewed inp")
  show ?case
  proof (cases "c1 = Continue")
    case False
    then have "main_loop cfg assignments lc_to_names viewed inp = (c1, viewed1, rest1, evs1)"
      using body by (rule main_loop_stop[rotated])
    then show ?thesis using "1.prems" stop[OF body False] by simp
  next
    case True
    obtain c2 viewed2 rest2 evs2
      where rec: "main_loop cfg assignments lc_to_names viewed1 rest1 = (c2, viewed2, rest2, evs2)"
      by (cases "main_loop cfg assignments lc_to_names viewed1 rest1")
    have body': "loop_body cfg assignments lc_to_names viewed inp = (Continue, viewed1, rest1, evs1)"
      using body True by simp
    have "length rest1 < length inp" using loop_body_consumes[OF body'] .
    then have q: "Q viewed1 rest1 c2 viewed2 rest2 evs2" using "1.IH" rec by blast
    have "main_loop cfg assignments lc_to_names viewed inp = (c2, viewed2, rest2, evs1 @ evs2)"
      using main_loop_step[OF body' rec] .
    then show ?thesis using "1.prems" step[OF body' rec q] by simp
  qed
qed

lemma loop_body_viewed_mono:
  assumes "loop_body cfg assignments lc_to_names viewed inp = (c, viewed', rest, evs)"
  shows "viewed \<subseteq> viewed'"
  using loop_body_viewed[OF assms] by auto

lemma loop_body_viewed_new:
  assumes "loop_body cfg assignments lc_to_names viewed inp = (c, viewed', rest, evs)"
    and "P \<in> viewed'" and "P \<notin> viewed"
  shows "\<exists>r. assignments P = Some r \<and> set (reveal_display P r) \<subseteq> set evs"
  using loop_body_viewed[OF assms(1)] assms(2,3) by auto

lemma main_loop_viewed_mono:
  assumes "main_loop cfg assignments lc_to_names viewed inp = (c, viewed', rest, evs)"
  shows "viewed \<subseteq> viewed'"
  using assms
proof (induction rule: main_loop_induct)
  case (stop viewed inp c viewed' rest evs)
  from loop_body_viewed_mono[OF stop(1)] show ?case .
next
  case (step viewed inp viewed1 rest1 evs1 c viewed' rest evs2)
  have "viewed \<subseteq> viewed1" using loop_body_viewed_mono[OF step(1)] .
  then show ?case using step.IH by (rule subset_trans)
qed

lemma main_loop_viewed_new:
  assumes "main_loop cfg assignments lc_to_names viewed inp = (c, viewed', rest, evs)"
    and "P \<in> viewed'" and "P \<notin> viewed"
  shows "\<exists>r. assignments P = Some r \<and> set (reveal_display P r) \<subseteq> set evs"
  using assms
proof (induction rule: main_loop_induct)
  case (stop viewed inp c viewed' rest evs)
  from loop_body_viewed_new[OF stop(1) stop.prems] show ?case .
next
  case (step viewed inp viewed1 rest1 evs1 c viewed' rest evs2)
  show ?case
  proof (cases "P \<in> viewed1")
    case True
    from loop_body_viewed_new[OF step(1) True step.prems(2)]
    obtain r where "assignments P = Some r" "set (reveal_display P r) \<subseteq> set evs1" by blast
    then show ?thesis by auto
  next
    case False
    from step.IH[OF step.prems(1) False]
    obtain r where "assignments P = Some r" "set (reveal_display P r) \<subseteq> set evs2" by blast
    then show ?thesis by auto
  qed
qed

lemma loop_body_one_shot:
  assumes "loop_body cfg assignments lc_to_names viewed inp = (c, viewed', rest, evs)"
    and "one_shot_reveal cfg" and "P \<in> viewed"
  shows "reveal_header P \<notin> set evs"
proof
  assume "reveal_header P \<in> set evs"
  from loop_body_shows_header[OF assms(1) this] have "\<not> (one_shot_reveal cfg \<and> P \<in> viewed)"
    by blast
  then show False using assms(2,3) by simp
qed

lemma main_loop_one_shot:
  assumes "main_loop cfg assignments lc_to_names viewed inp = (c, viewed', rest, evs)"
    and "one_shot_reveal cfg" and "P \<in> viewed"
  shows "reveal_header P \<notin> set evs"
  using assms
proof (induction rule: main_loop_induct)
  case (stop viewed inp c viewed' rest evs)
  from loop_body_one_shot[OF stop(1) stop.prems] show ?case .
next
  case (step viewed inp viewed1 rest1 evs1 c viewed' rest evs2)
  have "reveal_header P \<notin> set evs1" using loop_body_one_shot[OF step(1) step.prems] .
  moreover have "P \<in> viewed1" using loop_body_viewed_mono[OF step(1)] step.prems(2) by blast
  ultimately show ?case using step.IH[OF step.prems(1)] by simp
qed

lemma loop_body_exit_names:
  assumes "loop_body cfg assignments (build_lc_to_names names) viewed inp = (c, viewed', rest, evs)"
    and "lower P \<in> {''exit'', ''quit''}"
  shows "reveal_header P \<notin> set evs"
proof
  assume "reveal_header P \<in> set evs"
  from loop_body_shows_header[OF assms(1) this]
  obtain line candidates where l: "lower (strip line) \<notin> {''exit'', ''quit''}"
    and cs: "build_lc_to_names names (lower (strip line)) = Some candidates" "P \<in> set candidates"
    by blast
  have "lower P = lower (strip line)" using build_lc_to_names_Some[OF cs] by simp
  then show False using l assms(2) by simp
qed

lemma main_loop_exit_names:
  assumes "main_loop cfg assignments (build_lc_to_names names) viewed inp = (c, viewed', rest, evs)"
    and "lower P \<in> {''exit'', ''quit''}"
  shows "reveal_header P \<notin> set evs"
  using assms
proof (induction rule: main_loop_induct)
  case (stop viewed inp c viewed' rest evs)
  from loop_body_exit_names[OF stop(1) stop.prems] show ?case .
next
  case (step viewed inp viewed1 rest1 evs1 c viewed' rest evs2)
  have "reveal_header P \<notin> set evs1" using loop_body_exit_names[OF step(1) step.prems] .
  then show ?case using step.IH[OF step.prems] by simp
qed

subsection \<open>The selection loop\<close>










lemma loop_body_exit:
  assumes "lower (strip line) \<in> {''exit'', ''quit''}"
  shows "loop_body cfg assignments lc_to_names viewed (line # rest) =
     (Return, viewed, rest,
      [Input name_prompt, Print ''Exiting. Temporary file cleaned up. Happy holidays!''])"
proof -
  have "strip line \<noteq> []" using assms by (auto simp: lower_def)
  then show ?thesis using assms by (simp add: loop_body_def Let_def except_EOFError_def)
qed

lemma one_shot_config_simps:
  "one_shot_reveal one_shot_config" "\<not> reveal_needs_enter one_shot_config"
  "reveal_timeout_sec one_shot_config = PyInt 0"
  "\<not> one_shot_reveal repeat_config" "\<not> reveal_needs_enter repeat_config"
  "reveal_timeout_sec repeat_config = PyInt 0"
  by (simp_all add: one_shot_config_def repeat_config_def configure_def)

lemma example_session:
  "main_loop one_shot_config example_assignments (build_lc_to_names example_names) {}
     [''Bob'', ''bob'', ''exit''] =
   (Return, {''Bob''}, [],
    [Input name_prompt, Clear, reveal_header ''Bob'', Print ''You will gift to: alice'',
     Print (CHR 0x0A # ''(Clearing now. Please pass the device to the next person.)''), Clear,
     Input name_prompt, Print ''You have already viewed your assignment.'',
     Input name_prompt, Print ''Exiting. Temporary file cleaned up. Happy holidays!''])"
  by code_simp


subsection \<open>Ambiguous queries and the exit command\<close>








lemma exit_example_lower: "lower (strip ''Exit'') \<in> {''exit'', ''quit''}" "lower ''Exit'' \<in> {''exit'', ''quit''}"
  by code_simp+

subsection \<open>The claims about the session\<close>

text \<open>
  Claim C3. One-shot mode is on unless \<^verbatim>\<open>--allow-repeat\<close> is given. In one-shot mode, once
  \<open>P\<close> is in \<^verbatim>\<open>viewed\<close>, a query resolved to \<open>P\<close> gets the already-viewed notice and
  nothing else, and no reveal of \<open>P\<close> appears in the rest of the session. Otherwise (first
  reveal, or repeats allowed) the recipient assigned to \<open>P\<close> is displayed and \<open>P\<close> is
  recorded. A name enters \<^verbatim>\<open>viewed\<close> during a session only with its reveal on display.
\<close>

theorem one_shot_enforcement:
  "(one_shot_reveal (configure a) \<longleftrightarrow> \<not> allow_repeat a) \<and>
   (one_shot_reveal cfg \<and> P \<in> viewed \<longrightarrow>
      reveal cfg assignments P viewed inp =
        (Continue, viewed, inp, [Print ''You have already viewed your assignment.'']) \<and>
      reveal_header P \<notin> set (snd (snd (snd (main_loop cfg assignments lc_to_names viewed inp))))) \<and>
   (\<not> (one_shot_reveal cfg \<and> P \<in> viewed) \<and> assignments P = Some r \<longrightarrow>
      (\<exists>c rest evs. reveal cfg assignments P viewed inp =
          (c, insert P viewed, rest, reveal_display P r @ evs))) \<and>
   (case main_loop cfg assignments lc_to_names viewed inp of
      (c, viewed', rest, evs) \<Rightarrow>
        viewed \<subseteq> viewed' \<and>
        (\<forall>Q \<in> viewed' - viewed.
           \<exists>r. assignments Q = Some r \<and> set (reveal_display Q r) \<subseteq> set evs))"
proof -
  obtain c viewed' rest evs
    where run: "main_loop cfg assignments lc_to_names viewed inp = (c, viewed', rest, evs)"
    by (cases "main_loop cfg assignments lc_to_names viewed inp")
  have 1: "one_shot_reveal (configure a) \<longleftrightarrow> \<not> allow_repeat a"
    by (simp add: configure_def split: option.splits)
  have 2: "one_shot_reveal cfg \<and> P \<in> viewed \<longrightarrow>
      reveal cfg assignments P viewed inp =
        (Continue, viewed, inp, [Print ''You have already viewed your assignment.'']) \<and>
      reveal_header P \<notin> set evs"
    using main_loop_one_shot[OF run] by (simp add: reveal_def)
  have 3: "\<not> (one_shot_reveal cfg \<and> P \<in> viewed) \<and> assignments P = Some r \<longrightarrow>
      (\<exists>c rest evs. reveal cfg assignments P viewed inp =
          (c, insert P viewed, rest, reveal_display P r @ evs))"
    by (auto simp: reveal_def split: prod.splits option.splits)
  have 4: "viewed \<subseteq> viewed' \<and>
        (\<forall>Q \<in> viewed' - viewed.
           \<exists>r. assignments Q = Some r \<and> set (reveal_display Q r) \<subseteq> set evs)"
    using main_loop_viewed_mono[OF run] main_loop_viewed_new[OF run] by blast
  show ?thesis using 1 2 3 4 by (simp add: run)
qed

theorem one_shot_enforcement_witness:
  "one_shot_reveal one_shot_config \<and> ''Bob'' \<in> {''Bob''} \<and>
   reveal one_shot_config example_assignments ''Bob'' {''Bob''} [''exit''] =
     (Continue, {''Bob''}, [''exit''], [Print ''You have already viewed your assignment.'']) \<and>
   \<not> (one_shot_reveal repeat_config \<and> ''Bob'' \<in> {''Bob''}) \<and>
   example_assignments ''Bob'' = Some ''alice'' \<and>
   (\<exists>c rest evs. reveal repeat_config example_assignments ''Bob'' {''Bob''} [''exit''] =
      (c, insert ''Bob'' {''Bob''}, rest, reveal_display ''Bob'' ''alice'' @ evs)) \<and>
   ''Bob'' \<in> {''Bob''} - {} \<and>
   (\<exists>r. example_assignments ''Bob'' = Some r \<and>
        set (reveal_display ''Bob'' r) \<subseteq>
        set (snd (snd (snd (main_loop one_shot_config example_assignments
               (build_lc_to_names example_names) {} [''Bob'', ''bob'', ''exit''])))))"
proof -
  have h1: "one_shot_reveal one_shot_config \<and> ''Bob'' \<in> {''Bob''}"
    by (simp add: one_shot_config_simps)
  have h2: "\<not> (one_shot_reveal repeat_config \<and> ''Bob'' \<in> {''Bob''})"
    by (simp add: one_shot_config_simps)
  have h3: "example_assignments ''Bob'' = Some ''alice''"
    by (simp add: example_assignments_def)
  have c1: "reveal one_shot_config example_assignments ''Bob'' {''Bob''} [''exit''] =
     (Continue, {''Bob''}, [''exit''], [Print ''You have already viewed your assignment.''])"
    using one_shot_enforcement[where cfg = one_shot_config and P = "''Bob''"
        and viewed = "{''Bob''}" and assignments = example_assignments and inp = "[''exit'']"] h1
    by blast
  have c2: "\<exists>c rest evs. reveal repeat_config example_assignments ''Bob'' {''Bob''} [''exit''] =
      (c, insert ''Bob'' {''Bob''}, rest, reveal_display ''Bob'' ''alice'' @ evs)"
    using one_shot_enforcement[where cfg = repeat_config and P = "''Bob''"
        and viewed = "{''Bob''}" and assignments = example_assignments and r = "''alice''"
        and inp = "[''exit'']"] h2 h3
    by blast
  have c3: "\<exists>r. example_assignments ''Bob'' = Some r \<and>
        set (reveal_display ''Bob'' r) \<subseteq>
        set (snd (snd (snd (main_loop one_shot_config example_assignments
               (build_lc_to_names example_names) {} [''Bob'', ''bob'', ''exit'']))))"
    using one_shot_enforcement[where cfg = one_shot_config and viewed = "{}"
        and assignments = example_assignments and inp = "[''Bob'', ''bob'', ''exit'']"
        and lc_to_names = "build_lc_to_names example_names"]
    by (simp add: example_session)
  show ?thesis using h1 h2 h3 c1 c2 c3 by simp
qed




text \<open>
  Claim C10. A query whose lower-case form is \<^verbatim>\<open>exit\<close> or \<^verbatim>\<open>quit\<close> ends the session, whatever
  the participants are called; and for a participant whose name has the lower-case form
  \<^verbatim>\<open>exit\<close> or \<^verbatim>\<open>quit\<close> no input at all brings the reveal on the screen.
\<close>

theorem exit_precedes_lookup:
  "(lower (strip line) \<in> {''exit'', ''quit''} \<longrightarrow>
      main_loop cfg assignments lc_to_names viewed (line # rest) =
        (Return, viewed, rest,
         [Input name_prompt, Print ''Exiting. Temporary file cleaned up. Happy holidays!''])) \<and>
   (lower P \<in> {''exit'', ''quit''} \<longrightarrow>
      reveal_header P \<notin>
        set (snd (snd (snd (main_loop cfg assignments (build_lc_to_names names) viewed inp)))))"
proof -
  have 1: "main_loop cfg assignments lc_to_names viewed (line # rest) =
        (Return, viewed, rest,
         [Input name_prompt, Print ''Exiting. Temporary file cleaned up. Happy holidays!''])"
    if "lower (strip line) \<in> {''exit'', ''quit''}"
    using loop_body_exit[OF that] by (rule main_loop_stop) simp
  obtain c viewed' rest' evs
    where run: "main_loop cfg assignments (build_lc_to_names names) viewed inp =
                  (c, viewed', rest', evs)"
    by (cases "main_loop cfg assignments (build_lc_to_names names) viewed inp")
  have 2: "reveal_header P \<notin> set evs" if "lower P \<in> {''exit'', ''quit''}"
    using main_loop_exit_names[OF run that] .
  show ?thesis using 1 2 by (simp add: run)
qed

theorem exit_precedes_lookup_witness:
  "lower (strip ''Exit'') \<in> {''exit'', ''quit''} \<and>
   build_lc_to_names [''Exit'', ''Bob''] (lower (strip ''Exit'')) = Some [''Exit''] \<and>
   main_loop one_shot_config [''Exit'' \<mapsto> ''Bob'', ''Bob'' \<mapsto> ''Exit'']
       (build_lc_to_names [''Exit'', ''Bob'']) {} (''Exit'' # [''Bob'']) =
     (Return, {}, [''Bob''],
      [Input name_prompt, Print ''Exiting. Temporary file cleaned up. Happy holidays!'']) \<and>
   lower ''Exit'' \<in> {''exit'', ''quit''} \<and>
   reveal_header ''Exit'' \<notin>
     set (snd (snd (snd (main_loop one_shot_config [''Exit'' \<mapsto> ''Bob'', ''Bob'' \<mapsto> ''Exit'']
       (build_lc_to_names [''Exit'', ''Bob'']) {} [''EXIT '', ''Exit'']))))"
proof -
  have h1: "lower (strip ''Exit'') \<in> {''exit'', ''quit''}" by (rule exit_example_lower)
  have h2: "lower ''Exit'' \<in> {''exit'', ''quit''}" by (rule exit_example_lower)
  have h3: "build_lc_to_names [''Exit'', ''Bob''] (lower (strip ''Exit'')) = Some [''Exit'']"
    by code_simp
  note t = exit_precedes_lookup[where line = "''Exit''" and P = "''Exit''"
      and cfg = one_shot_config and assignments = "[''Exit'' \<mapsto> ''Bob'', ''Bob'' \<mapsto> ''Exit'']"
      and names = "[''Exit'', ''Bob'']" and viewed = "{}"]
  have c1: "main_loop one_shot_config [''Exit'' \<mapsto> ''Bob'', ''Bob'' \<mapsto> ''Exit'']
       (build_lc_to_names [''Exit'', ''Bob'']) {} (''Exit'' # [''Bob'']) =
     (Return, {}, [''Bob''],
      [Input name_prompt, Print ''Exiting. Temporary file cleaned up. Happy holidays!''])"
    using t[where lc_to_names = "build_lc_to_names [''Exit'', ''Bob'']" and rest = "[''Bob'']"] h1
    by blast
  have c2: "reveal_header ''Exit'' \<notin>
     set (snd (snd (snd (main_loop one_shot_config [''Exit'' \<mapsto> ''Bob'', ''Bob'' \<mapsto> ''Exit'']
       (build_lc_to_names [''Exit'', ''Bob'']) {} [''EXIT '', ''Exit'']))))"
    using t[where inp = "[''EXIT '', ''Exit'']"] h2 by blast
  show ?thesis using h1 h2 h3 c1 c2 by blast
qed

end
